theory Spec2Isabelle
  imports Complex_Main
begin

section \<open>Isolation-forest anomaly service: data model\<close>

text \<open>
  The service (package \<open>main\<close>) and its forest (package \<open>iforest\<close>) compute on Go
  \<open>float64\<close> values. A \<open>float64\<close> is modelled by its value: a real number when it is
  finite, or one of the three special values. The sanitizer is the place where special
  values enter the program and are removed; behind it the series are finite, and the
  arithmetic on them is carried out on the reals (every finite \<open>float64\<close> is a real; rounding
  and overflow of the intermediate results are not part of the model). Operations that
  produce a special value from finite operands (a division by zero, the logarithm of zero)
  are written out where the source performs them.
\<close>

datatype float64 = Finite real | PosInf | NegInf | NaN

text \<open>\<open>math.IsNaN\<close> and \<open>math.IsInf(v, 0)\<close>.\<close>

fun math_IsNaN :: "float64 \<Rightarrow> bool" where
  "math_IsNaN NaN = True"
| "math_IsNaN (Finite r) = False"
| "math_IsNaN PosInf = False"
| "math_IsNaN NegInf = False"

fun math_IsInf0 :: "float64 \<Rightarrow> bool" where
  "math_IsInf0 PosInf = True"
| "math_IsInf0 NegInf = True"
| "math_IsInf0 (Finite r) = False"
| "math_IsInf0 NaN = False"

text \<open>The comparison \<open>a >= b\<close> of two \<open>float64\<close>: false as soon as one side is NaN.\<close>

fun f64_ge :: "float64 \<Rightarrow> float64 \<Rightarrow> bool" where
  "f64_ge NaN b = False"
| "f64_ge a NaN = False"
| "f64_ge PosInf b = True"
| "f64_ge a NegInf = True"
| "f64_ge NegInf b = False"
| "f64_ge a PosInf = False"
| "f64_ge (Finite x) (Finite y) = (y \<le> x)"

text \<open>The comparison \<open>a > b\<close>.\<close>

fun f64_gt :: "float64 \<Rightarrow> float64 \<Rightarrow> bool" where
  "f64_gt NaN b = False"
| "f64_gt a NaN = False"
| "f64_gt NegInf b = False"
| "f64_gt a PosInf = False"
| "f64_gt PosInf b = True"
| "f64_gt a NegInf = True"
| "f64_gt (Finite x) (Finite y) = (y < x)"

subsection \<open>Sanitizer\<close>

text \<open>
  \<^verbatim>\<open>
  func sane(v float64) (float64, bool) {
      if math.IsNaN(v) || math.IsInf(v, 0) { return 0, false }
      return v, true
  }
  \<close>
\<close>

definition sane :: "float64 \<Rightarrow> float64 \<times> bool" where
  "sane v = (if math_IsNaN v \<or> math_IsInf0 v then (Finite 0, False) else (v, True))"

text \<open>
  A decoded JSON value (\<open>interface{}\<close> after \<open>json.Unmarshal\<close>): a number is a
  \<open>float64\<close>, a string is a \<open>string\<close>; null, booleans, arrays and objects are the rest.
\<close>

datatype jvalue = JNumber float64 | JString string | JOther

text \<open>The type assertions \<open>v[0].(float64)\<close> and \<open>v[1].(string)\<close> in their comma-ok form:
  the zero value when the dynamic type is another one.\<close>

fun as_float64 :: "jvalue \<Rightarrow> float64" where
  "as_float64 (JNumber x) = x"
| "as_float64 (JString s) = Finite 0"
| "as_float64 JOther = Finite 0"

fun as_string :: "jvalue \<Rightarrow> string" where
  "as_string (JString s) = s"
| "as_string (JNumber x) = []"
| "as_string JOther = []"

text \<open>
  The extraction loop of \<open>fetchAllRPS\<close> (the same loop stands in \<open>fetchAllErrorRate\<close>), over
  the \<open>Values\<close> of one series:
  \<^verbatim>\<open>
  for _, v := range s.Values {
      if len(v) != 2 { continue }
      sec, _ := v[0].(float64)
      str, _ := v[1].(string)
      var f float64
      fmt.Sscan(str, &f)
      if fv, ok := sane(f); ok { vals = append(vals, fv) } else { vals = append(vals, 0) }
      ts = append(ts, time.Unix(int64(sec), 0))
  }
  \<close>
  The two library functions are parameters: \<open>scan str\<close> is the \<open>float64\<close> that
  \<open>fmt.Sscan(str, &f)\<close> leaves in \<open>f\<close> (zero when nothing parses), and \<open>unix sec\<close> is
  \<open>time.Unix(int64(sec), 0)\<close>. The state of the loop is the pair of slices \<open>(vals, ts)\<close>.
\<close>

definition extract_step ::
  "(string \<Rightarrow> float64) \<Rightarrow> (float64 \<Rightarrow> 'ts) \<Rightarrow> float64 list \<times> 'ts list \<Rightarrow> jvalue list
     \<Rightarrow> float64 list \<times> 'ts list" where
  "extract_step scan unix st v =
     (if length v \<noteq> 2 then st
      else
        let sec = as_float64 (v ! 0);
            str = as_string (v ! 1);
            f = scan str;
            (fv, ok) = sane f
        in (fst st @ [if ok then fv else Finite 0], snd st @ [unix sec]))"

definition extract_values ::
  "(string \<Rightarrow> float64) \<Rightarrow> (float64 \<Rightarrow> 'ts) \<Rightarrow> jvalue list list \<Rightarrow> float64 list \<times> 'ts list" where
  "extract_values scan unix values = foldl (extract_step scan unix) ([], []) values"

subsection \<open>Event reporter\<close>

text \<open>
  \<^verbatim>\<open>
  func logAnomalyEvents(serviceName, metric string, topIdx []int, scores []float64, threshold float64) {
      for _, i := range topIdx {
          if i >= 0 && i < len(scores) && scores[i] >= threshold {
              log.Printf("anomaly detected: service=%s metric=%s", serviceName, metric)
          }
      }
  }
  \<close>
  The effect is the sequence of lines written to the log; the function returns it.
\<close>

definition event_line :: "string \<Rightarrow> string \<Rightarrow> string" where
  "event_line serviceName metric =
     ''anomaly detected: service='' @ serviceName @ '' metric='' @ metric"

definition fires :: "float64 list \<Rightarrow> float64 \<Rightarrow> int \<Rightarrow> bool" where
  "fires scores threshold i =
     (0 \<le> i \<and> i < int (length scores) \<and> f64_ge (scores ! nat i) threshold)"

fun logAnomalyEvents ::
  "string \<Rightarrow> string \<Rightarrow> int list \<Rightarrow> float64 list \<Rightarrow> float64 \<Rightarrow> string list" where
  "logAnomalyEvents serviceName metric [] scores threshold = []"
| "logAnomalyEvents serviceName metric (i # topIdx) scores threshold =
     (if fires scores threshold i
      then event_line serviceName metric # logAnomalyEvents serviceName metric topIdx scores threshold
      else logAnomalyEvents serviceName metric topIdx scores threshold)"

section \<open>Package iforest\<close>

text \<open>Run-time panics of the Go program, as values.\<close>

datatype panic =
    NilPointerDereference
  | MakeLenOutOfRange
  | IntnInvalidArgument
  | SliceBoundsOutOfRange

subsection \<open>The random source\<close>

text \<open>
  The functions of \<open>math/rand\<close> read a shared generator. Its state is modelled as the
  sequence of raw draws still to come; each call consumes the first one. \<open>rand.Float64()\<close>
  returns a value in the half-open interval \<open>[0,1)\<close>: the fractional part of the raw draw, so
  that every value of the interval, 0 included, is a possible outcome and no other is.
  \<open>rand.Intn(n)\<close> panics for \<open>n <= 0\<close> and returns an integer in \<open>[0,n)\<close> otherwise.
\<close>

type_synonym rng = "nat \<Rightarrow> real"

definition rng_next :: "rng \<Rightarrow> rng" where
  "rng_next g = (\<lambda>i. g (Suc i))"

definition rand_Float64 :: "rng \<Rightarrow> real \<times> rng" where
  "rand_Float64 g = (frac (g 0), rng_next g)"

definition rand_Intn :: "int \<Rightarrow> rng \<Rightarrow> panic + int \<times> rng" where
  "rand_Intn n g =
     (if n \<le> 0 then Inl IntnInvalidArgument
      else Inr (\<lfloor>frac (g 0) * real_of_int n\<rfloor>, rng_next g))"

subsection \<open>Trees and forests\<close>

text \<open>
  \<^verbatim>\<open>
  type Tree struct { Split float64; Left *Tree; Right *Tree; Leaf bool; Depth int }
  type Forest struct { Trees []*Tree; C float64 }
  \<close>
  A \<open>*Tree\<close> is either nil or points to a node owned by its parent alone.
\<close>

datatype Tree =
    NilTree
  | MkTree (Split: real) (Left: Tree) (Right: Tree) (Leaf: bool) (Depth: int)

record Forest =
  Trees :: "Tree list"
  C :: real

text \<open>
  \<^verbatim>\<open>
  func averagePathLength(n int) float64 {
      if n <= 1 { return 0 }
      h := 0.0
      for i := 1; i < n; i++ { h += 1.0 / float64(i) }
      return 2*h - 2*float64(n-1)/float64(n)
  }
  \<close>
\<close>

function harmonic_loop :: "int \<Rightarrow> int \<Rightarrow> real \<Rightarrow> real" where
  "harmonic_loop i n h =
     (if i < n then harmonic_loop (i + 1) n (h + 1 / real_of_int i) else h)"
  by pat_completeness auto
termination
  by (relation "measure (\<lambda>(i, n, h). nat (n - i))") auto

definition averagePathLength :: "int \<Rightarrow> real" where
  "averagePathLength n =
     (if n \<le> 1 then 0
      else 2 * harmonic_loop 1 n 0 - 2 * real_of_int (n - 1) / real_of_int n)"

text \<open>
  \<^verbatim>\<open>
  func fitTree(data []float64, depth, maxDepth int) *Tree {
      if depth >= maxDepth || len(data) <= 1 { return &Tree{Leaf: true, Depth: depth} }
      minV, maxV := data[0], data[0]
      for _, v := range data {
          if v < minV { minV = v }
          if v > maxV { maxV = v }
      }
      if minV == maxV { return &Tree{Leaf: true, Depth: depth} }
      split := minV + rand.Float64()*(maxV-minV)
      left := ...; right := ...
      for _, v := range data {
          if v < split { left = append(left, v) } else { right = append(right, v) }
      }
      return &Tree{Split: split, Left: fitTree(left, depth+1, maxDepth),
                   Right: fitTree(right, depth+1, maxDepth), Leaf: false, Depth: depth}
  }
  \<close>
\<close>

definition leaf :: "int \<Rightarrow> Tree" where
  "leaf depth = MkTree 0 NilTree NilTree True depth"

definition min_max_step :: "real \<times> real \<Rightarrow> real \<Rightarrow> real \<times> real" where
  "min_max_step mm v =
     (let minV = (if v < fst mm then v else fst mm);
          maxV = (if v > snd mm then v else snd mm)
      in (minV, maxV))"

definition min_max :: "real list \<Rightarrow> real \<times> real" where
  "min_max data = foldl min_max_step (data ! 0, data ! 0) data"

function fitTree :: "real list \<Rightarrow> int \<Rightarrow> int \<Rightarrow> rng \<Rightarrow> Tree \<times> rng" where
  "fitTree data depth maxDepth g =
     (if depth \<ge> maxDepth \<or> length data \<le> 1 then (leaf depth, g)
      else
        let (minV, maxV) = min_max data in
        if minV = maxV then (leaf depth, g)
        else
          let (r, g1) = rand_Float64 g;
              split = minV + r * (maxV - minV);
              left = filter (\<lambda>v. v < split) data;
              right = filter (\<lambda>v. \<not> v < split) data;
              (l, g2) = fitTree left (depth + 1) maxDepth g1;
              (rt, g3) = fitTree right (depth + 1) maxDepth g2
          in (MkTree split l rt False depth, g3))"
  by pat_completeness auto
termination
  by (relation "measure (\<lambda>(data, depth, maxDepth, g). nat (maxDepth - depth))") auto

text \<open>
  The pieces of \<open>int(math.Ceil(math.Log2(float64(psi))))\<close>. \<open>math.Log2\<close> of zero is \<open>-Inf\<close>
  and of a negative number NaN; \<open>math.Ceil\<close> keeps special values; the conversion of a
  finite value truncates towards zero. The conversion of a special value to \<open>int\<close> is
  implementation-dependent in Go: the value here is the one of amd64, the least \<open>int64\<close>.
\<close>

definition math_Log2 :: "real \<Rightarrow> float64" where
  "math_Log2 x = (if 0 < x then Finite (log 2 x) else if x = 0 then NegInf else NaN)"

fun math_Ceil :: "float64 \<Rightarrow> float64" where
  "math_Ceil (Finite r) = Finite (of_int \<lceil>r\<rceil>)"
| "math_Ceil PosInf = PosInf"
| "math_Ceil NegInf = NegInf"
| "math_Ceil NaN = NaN"

fun int_of_float64 :: "float64 \<Rightarrow> int" where
  "int_of_float64 (Finite r) = (if 0 \<le> r then \<lfloor>r\<rfloor> else \<lceil>r\<rceil>)"
| "int_of_float64 PosInf = - (2 ^ 63)"
| "int_of_float64 NegInf = - (2 ^ 63)"
| "int_of_float64 NaN = - (2 ^ 63)"

text \<open>
  \<^verbatim>\<open>
  func New(data []float64, t, psi int) *Forest {
      if psi <= 0 || psi > len(data) { psi = len(data) }
      trees := make([]*Tree, t)
      maxDepth := int(math.Ceil(math.Log2(float64(psi))))
      subsample := make([]float64, psi)
      for i := 0; i < t; i++ {
          for j := 0; j < psi; j++ { subsample[j] = data[rand.Intn(len(data))] }
          trees[i] = fitTree(subsample, 0, maxDepth)
      }
      return &Forest{Trees: trees, C: averagePathLength(psi)}
  }
  \<close>
  The inner loop overwrites every cell of \<open>subsample\<close> before each call of \<open>fitTree\<close>, so the
  slice the tree is built from is the list of the \<open>psi\<close> draws, in order. \<open>make\<close> panics for a
  negative length.
\<close>

definition clamp_psi :: "real list \<Rightarrow> int \<Rightarrow> int" where
  "clamp_psi data psi =
     (if psi \<le> 0 \<or> psi > int (length data) then int (length data) else psi)"

definition max_depth :: "int \<Rightarrow> int" where
  "max_depth psi = int_of_float64 (math_Ceil (math_Log2 (real_of_int psi)))"

fun draw_subsample :: "real list \<Rightarrow> nat \<Rightarrow> rng \<Rightarrow> panic + real list \<times> rng" where
  "draw_subsample data 0 g = Inr ([], g)"
| "draw_subsample data (Suc n) g =
     (case rand_Intn (int (length data)) g of
        Inl e \<Rightarrow> Inl e
      | Inr (k, g1) \<Rightarrow>
          (case draw_subsample data n g1 of
             Inl e \<Rightarrow> Inl e
           | Inr (rest, g2) \<Rightarrow> Inr (data ! nat k # rest, g2)))"

fun build_trees :: "real list \<Rightarrow> nat \<Rightarrow> int \<Rightarrow> nat \<Rightarrow> rng \<Rightarrow> panic + Tree list \<times> rng" where
  "build_trees data psi maxDepth 0 g = Inr ([], g)"
| "build_trees data psi maxDepth (Suc n) g =
     (case draw_subsample data psi g of
        Inl e \<Rightarrow> Inl e
      | Inr (subsample, g1) \<Rightarrow>
          (let (tr, g2) = fitTree subsample 0 maxDepth g1 in
           case build_trees data psi maxDepth n g2 of
             Inl e \<Rightarrow> Inl e
           | Inr (trs, g3) \<Rightarrow> Inr (tr # trs, g3)))"

definition New :: "real list \<Rightarrow> int \<Rightarrow> int \<Rightarrow> rng \<Rightarrow> panic + Forest \<times> rng" where
  "New data t psi0 g =
     (let psi = clamp_psi data psi0 in
      if t < 0 then Inl MakeLenOutOfRange
      else
        let maxDepth = max_depth psi in
        case build_trees data (nat psi) maxDepth (nat t) g of
          Inl e \<Rightarrow> Inl e
        | Inr (trees, g') \<Rightarrow> Inr (\<lparr>Trees = trees, C = averagePathLength psi\<rparr>, g'))"

text \<open>
  \<^verbatim>\<open>
  func pathLenTree(t *Tree, x float64) float64 {
      if t.Leaf || t.Left == nil || t.Right == nil { return float64(t.Depth) }
      if x < t.Split { return pathLenTree(t.Left, x) }
      return pathLenTree(t.Right, x)
  }
  func (f *Forest) pathLength(x float64) float64 {
      pl := 0.0
      for _, t := range f.Trees { pl += pathLenTree(t, x) }
      return pl / float64(len(f.Trees))
  }
  func (f *Forest) Score(x float64) float64 {
      if f.C == 0 { return 0 }
      E := f.pathLength(x)
      return math.Pow(2, -E/f.C)
  }
  \<close>
  Reading a field of a nil \<open>*Tree\<close> panics. The division in \<open>pathLength\<close> is a float
  division: by zero it yields NaN or an infinity, it does not panic.
\<close>

fun pathLenTree :: "Tree \<Rightarrow> real \<Rightarrow> panic + real" where
  "pathLenTree NilTree x = Inl NilPointerDereference"
| "pathLenTree (MkTree split l r lf depth) x =
     (if lf \<or> l = NilTree \<or> r = NilTree then Inr (real_of_int depth)
      else if x < split then pathLenTree l x
      else pathLenTree r x)"

fun pathLength_loop :: "Tree list \<Rightarrow> real \<Rightarrow> real \<Rightarrow> panic + real" where
  "pathLength_loop [] x pl = Inr pl"
| "pathLength_loop (t # ts) x pl =
     (case pathLenTree t x of
        Inl e \<Rightarrow> Inl e
      | Inr d \<Rightarrow> pathLength_loop ts x (pl + d))"

definition f64_quot :: "real \<Rightarrow> real \<Rightarrow> float64" where
  "f64_quot a b =
     (if b \<noteq> 0 then Finite (a / b)
      else if a = 0 then NaN
      else if 0 < a then PosInf
      else NegInf)"

definition pathLength :: "Forest \<Rightarrow> real \<Rightarrow> panic + float64" where
  "pathLength f x =
     (case pathLength_loop (Trees f) x 0 of
        Inl e \<Rightarrow> Inl e
      | Inr pl \<Rightarrow> Inr (f64_quot pl (real (length (Trees f)))))"

text \<open>\<open>math.Pow(2, -E/c)\<close> for a non-zero finite \<open>c\<close>: \<open>Pow(2, NaN)\<close> is NaN,
  \<open>Pow(2, -Inf)\<close> is 0 and \<open>Pow(2, +Inf)\<close> is \<open>+Inf\<close>.\<close>

fun pow2_neg_ratio :: "float64 \<Rightarrow> real \<Rightarrow> float64" where
  "pow2_neg_ratio (Finite e) c = Finite (2 powr (- e / c))"
| "pow2_neg_ratio NaN c = NaN"
| "pow2_neg_ratio PosInf c = (if 0 < c then Finite 0 else PosInf)"
| "pow2_neg_ratio NegInf c = (if 0 < c then PosInf else Finite 0)"

definition Score :: "Forest \<Rightarrow> real \<Rightarrow> panic + float64" where
  "Score f x =
     (if C f = 0 then Inr (Finite 0)
      else
        case pathLength f x of
          Inl e \<Rightarrow> Inl e
        | Inr E \<Rightarrow> Inr (pow2_neg_ratio E (C f)))"

section \<open>Package main: normalizer and selector\<close>

text \<open>
  \<^verbatim>\<open>
  func meanStd(x []float64) (float64, float64) {
      if len(x) == 0 { return 0, 1 }
      sum := 0.0
      for _, v := range x { sum += v }
      mu := sum / float64(len(x))
      ss := 0.0
      for _, v := range x { d := v - mu; ss += d * d }
      return mu, math.Sqrt(ss / float64(len(x)))
  }
  \<close>
\<close>

definition meanStd :: "real list \<Rightarrow> real \<times> real" where
  "meanStd x =
     (if length x = 0 then (0, 1)
      else
        let sum = foldl (\<lambda>s v. s + v) 0 x;
            mu = sum / real (length x);
            ss = foldl (\<lambda>s v. let d = v - mu in s + d * d) 0 x
        in (mu, sqrt (ss / real (length x))))"

text \<open>The constant \<open>1e-9\<close> and the first loop of \<open>detectAnomalies\<close>:
  \<^verbatim>\<open>
  mu, sd := meanStd(vals)
  for i, v := range vals { norm[i] = (v - mu) / (sd + 1e-9) }
  \<close>
\<close>

definition epsilon :: real where
  "epsilon = 1 / 10 ^ 9"

definition normalize_series :: "real list \<Rightarrow> real list" where
  "normalize_series vals =
     (let (mu, sd) = meanStd vals in map (\<lambda>v. (v - mu) / (sd + epsilon)) vals)"

text \<open>
  \<open>sort.Slice(idx, less)\<close> of the Go library reorders \<open>idx\<close> in place so that it is ordered
  by \<open>less\<close>; the library promises a permutation in that order and no stability. The
  comparison of \<open>detectAnomalies\<close> reads the elements at two positions, so it is a comparison
  of elements. The model is the insertion sort the library runs on short slices; the
  properties proved of the selector rest on the promise alone (permutation, order).
\<close>

fun insert_less :: "('a \<Rightarrow> 'a \<Rightarrow> bool) \<Rightarrow> 'a \<Rightarrow> 'a list \<Rightarrow> 'a list" where
  "insert_less lt x [] = [x]"
| "insert_less lt x (y # ys) =
     (if lt x y then x # y # ys else y # insert_less lt x ys)"

definition sort_Slice :: "('a \<Rightarrow> 'a \<Rightarrow> bool) \<Rightarrow> 'a list \<Rightarrow> 'a list" where
  "sort_Slice lt xs = foldl (\<lambda>acc x. insert_less lt x acc) [] xs"

text \<open>
  \<^verbatim>\<open>
  func detectAnomalies(vals []float64, k int) ([]int, []float64) {
      mu, sd := meanStd(vals)
      norm := ...                                   // see normalize_series
      f := iforest.New(norm, 100, min(64, len(norm)))
      scores := make([]float64, len(norm))
      for i, v := range norm { scores[i] = f.Score(v) }
      idx := make([]int, len(norm))
      for i := range idx { idx[i] = i }
      sort.Slice(idx, func(i, j int) bool { return scores[idx[i]] > scores[idx[j]] })
      if k > len(idx) { k = len(idx) }
      return idx[:k], scores
  }
  \<close>
  The slice expression \<open>idx[:k]\<close> panics for a negative \<open>k\<close>.
\<close>

fun score_all :: "Forest \<Rightarrow> real list \<Rightarrow> panic + float64 list" where
  "score_all f [] = Inr []"
| "score_all f (v # vs) =
     (case Score f v of
        Inl e \<Rightarrow> Inl e
      | Inr s \<Rightarrow>
          (case score_all f vs of
             Inl e \<Rightarrow> Inl e
           | Inr ss \<Rightarrow> Inr (s # ss)))"

definition score_gt :: "float64 list \<Rightarrow> int \<Rightarrow> int \<Rightarrow> bool" where
  "score_gt scores a b = f64_gt (scores ! nat a) (scores ! nat b)"

definition detectAnomalies ::
  "real list \<Rightarrow> int \<Rightarrow> rng \<Rightarrow> panic + (int list \<times> float64 list) \<times> rng" where
  "detectAnomalies vals k0 g =
     (let norm = normalize_series vals in
      case New norm 100 (min 64 (int (length norm))) g of
        Inl e \<Rightarrow> Inl e
      | Inr (f, g') \<Rightarrow>
          (case score_all f norm of
             Inl e \<Rightarrow> Inl e
           | Inr scores \<Rightarrow>
               let idx = map int [0 ..< length norm];
                   sorted_idx = sort_Slice (score_gt scores) idx;
                   k = (if k0 > int (length sorted_idx) then int (length sorted_idx) else k0)
               in if k < 0 then Inl SliceBoundsOutOfRange
                  else Inr ((take (nat k) sorted_idx, scores), g')))"

section \<open>Vocabulary of the properties\<close>

text \<open>The nodes of a tree (nil pointers hold none), the root first.\<close>

fun nodes :: "Tree \<Rightarrow> Tree list" where
  "nodes NilTree = []"
| "nodes (MkTree split l r lf depth) = MkTree split l r lf depth # nodes l @ nodes r"

text \<open>A tree as \<open>fitTree\<close> allocates it: never nil; a leaf has no children, a node that is
  not a leaf has two.\<close>

fun well_formed :: "Tree \<Rightarrow> bool" where
  "well_formed NilTree = False"
| "well_formed (MkTree split l r lf depth) =
     (if lf then l = NilTree \<and> r = NilTree else well_formed l \<and> well_formed r)"


text \<open>The height of a tree: the number of nodes on its longest branch.\<close>

fun height :: "Tree \<Rightarrow> nat" where
  "height NilTree = 0"
| "height (MkTree split l r lf depth) = Suc (max (height l) (height r))"

declare fitTree.simps [simp del]
declare harmonic_loop.simps [simp del]

section \<open>Sanitizer and event reporter\<close>

lemma extract_values_eq_aux:
  "foldl (extract_step scan unix) (vs, ts) values =
     (vs @ map (\<lambda>v. let f = scan (as_string (v ! 1)) in
                   if math_IsNaN f \<or> math_IsInf0 f then Finite 0 else f)
             (filter (\<lambda>v. length v = 2) values),
      ts @ map (\<lambda>v. unix (as_float64 (v ! 0))) (filter (\<lambda>v. length v = 2) values))"
  by (induction "values" arbitrary: vs ts) (simp_all add: extract_step_def sane_def Let_def)

text \<open>
  Claim C8. \<open>sane\<close> maps NaN and both infinities to \<open>(0, false)\<close> and every finite value
  \<open>v\<close> to \<open>(v, true)\<close>, for instance 3.5. In the extraction of a series, the pairs of arity 2
  contribute one element each, in order: the scanned magnitude when it is finite and 0
  when it is not, and the timestamp of the pair at the same position; every other pair
  is skipped. The sanitized length is the input length minus the number of malformed pairs.
\<close>

theorem sanitizer_contract:
  "sane NaN = (Finite 0, False) \<and> sane PosInf = (Finite 0, False) \<and>
   sane NegInf = (Finite 0, False) \<and> sane (Finite v) = (Finite v, True) \<and>
   sane (Finite (7 / 2)) = (Finite (7 / 2), True) \<and>
   fst (extract_values scan unix values) =
     map (\<lambda>v. let f = scan (as_string (v ! 1)) in
               if math_IsNaN f \<or> math_IsInf0 f then Finite 0 else f)
         (filter (\<lambda>v. length v = 2) values) \<and>
   snd (extract_values scan unix values) =
     map (\<lambda>v. unix (as_float64 (v ! 0))) (filter (\<lambda>v. length v = 2) values) \<and>
   length (fst (extract_values scan unix values)) =
     length values - length (filter (\<lambda>v. length v \<noteq> 2) values) \<and>
   length (snd (extract_values scan unix values)) =
     length values - length (filter (\<lambda>v. length v \<noteq> 2) values)"
proof -
  have len: "length (filter (\<lambda>v. length v = 2) values) =
      length values - length (filter (\<lambda>v. length v \<noteq> 2) values)"
    using sum_length_filter_compl [of "\<lambda>v. length v = 2" "values"] by simp
  show ?thesis
    by (simp add: sane_def extract_values_def extract_values_eq_aux len)
qed

lemma logAnomalyEvents_filter:
  "logAnomalyEvents svc m topIdx scores th =
     map (\<lambda>i. event_line svc m) (filter (fires scores th) topIdx)"
  by (induction topIdx) simp_all

text \<open>
  Claim C9. The reporter writes one line for each selected index that is in range and
  whose score is at least the threshold, and nothing for the other indices: the log is
  one line per element of the selection filtered by that test. For the threshold 0.6, the
  scores \<open>[0.9, 0.3, 0.7]\<close> and the selection \<open>[0, 2, 1]\<close> the test keeps the indices 0 and 2, and
  exactly two lines are written.
\<close>

theorem reporter_contract:
  "logAnomalyEvents svc m topIdx scores th =
     map (\<lambda>i. event_line svc m) (filter (fires scores th) topIdx) \<and>
   length (logAnomalyEvents svc m topIdx scores th) = length (filter (fires scores th) topIdx) \<and>
   filter (fires [Finite (9 / 10), Finite (3 / 10), Finite (7 / 10)] (Finite (6 / 10))) [0, 2, 1] = [0, 2] \<and>
   logAnomalyEvents svc m [0, 2, 1] [Finite (9 / 10), Finite (3 / 10), Finite (7 / 10)] (Finite (6 / 10)) =
     [event_line svc m, event_line svc m]"
  by (simp add: logAnomalyEvents_filter fires_def)

section \<open>Properties of the forest construction\<close>

lemma harmonic_loop_sum:
  "harmonic_loop i n h = h + (\<Sum>k = i..<n. 1 / real_of_int k)"
proof (induction i n h rule: harmonic_loop.induct)
  case (1 i n h)
  show ?case
  proof (cases "i < n")
    case True
    have set_eq: "{i..<n} = insert i {i + 1..<n}"
      using True by auto
    have "harmonic_loop i n h = harmonic_loop (i + 1) n (h + 1 / real_of_int i)"
      using True by (subst harmonic_loop.simps) simp
    also have "\<dots> = h + 1 / real_of_int i + (\<Sum>k = i + 1..<n. 1 / real_of_int k)"
      using "1.IH" [OF True] .
    also have "\<dots> = h + (\<Sum>k = i..<n. 1 / real_of_int k)"
      by (subst set_eq) simp
    finally show ?thesis .
  next
    case False
    then show ?thesis by (subst harmonic_loop.simps) simp
  qed
qed

lemma averagePathLength_formula:
  assumes "2 \<le> n"
  shows "averagePathLength n =
    2 * (\<Sum>k = 1..n - 1. 1 / real_of_int k) - 2 * real_of_int (n - 1) / real_of_int n"
proof -
  have "{1..<n} = {1..n - 1}" by auto
  then have eq: "(\<Sum>k = 1..<n. 1 / real_of_int k) = (\<Sum>k = 1..n - 1. 1 / real_of_int k)"
    by (rule arg_cong)
  have "\<not> n \<le> 1" using assms by simp
  then show ?thesis
    unfolding averagePathLength_def harmonic_loop_sum eq by (simp only: if_False add_0)
qed

lemma averagePathLength_pos:
  assumes "2 \<le> n"
  shows "0 < averagePathLength n"
proof -
  have sub: "{1::int} \<subseteq> {1..n - 1}" using assms by auto
  have "(\<Sum>k \<in> {1::int}. 1 / real_of_int k) \<le> (\<Sum>k = 1..n - 1. 1 / real_of_int k)"
    by (rule sum_mono2 [OF _ sub]) auto
  then have h: "1 \<le> (\<Sum>k = 1..n - 1. 1 / real_of_int k)" by simp
  have q: "real_of_int (n - 1) / real_of_int n < 1" using assms by simp
  have "2 * real_of_int (n - 1) / real_of_int n = 2 * (real_of_int (n - 1) / real_of_int n)"
    by simp
  then show ?thesis
    unfolding averagePathLength_formula [OF assms] using h q by linarith
qed

lemma averagePathLength_two: "averagePathLength 2 = 1"
proof -
  have "{1..(2::int) - 1} = {1}" by auto
  then show ?thesis
    by (simp add: averagePathLength_formula [of 2])
qed

lemma max_depth_ge1:
  assumes "1 \<le> psi"
  shows "max_depth psi = \<lceil>log 2 (real_of_int psi)\<rceil>" and "0 \<le> max_depth psi"
proof -
  have "0 \<le> log 2 (real_of_int psi)" using assms by simp
  then have c: "0 \<le> \<lceil>log 2 (real_of_int psi)\<rceil>" by linarith
  show "max_depth psi = \<lceil>log 2 (real_of_int psi)\<rceil>"
    using assms c by (simp add: max_depth_def math_Log2_def)
  then show "0 \<le> max_depth psi" using c by simp
qed

lemma rand_Intn_range:
  assumes "0 < n"
  shows "\<exists>k g'. rand_Intn n g = Inr (k, g') \<and> 0 \<le> k \<and> k < n"
proof -
  have f0: "0 \<le> frac (g 0)" and f1: "frac (g 0) < 1"
    by (simp_all add: frac_lt_1)
  have "frac (g 0) * real_of_int n < real_of_int n"
    using f1 assms by simp
  then have "\<lfloor>frac (g 0) * real_of_int n\<rfloor> < n" by linarith
  moreover have "0 \<le> frac (g 0) * real_of_int n" using f0 assms by simp
  then have "0 \<le> \<lfloor>frac (g 0) * real_of_int n\<rfloor>" by simp
  ultimately show ?thesis using assms by (simp add: rand_Intn_def)
qed

lemma draw_subsample_ok:
  assumes "n = 0 \<or> data \<noteq> []"
  shows "\<exists>sub g'. draw_subsample data n g = Inr (sub, g') \<and> length sub = n \<and> set sub \<subseteq> set data"
  using assms
proof (induction n arbitrary: g)
  case 0
  then show ?case by simp
next
  case (Suc n)
  then have ne: "data \<noteq> []" by simp
  then have "0 < int (length data)" by simp
  from rand_Intn_range [OF this, of g] obtain k g1 where
    k: "rand_Intn (int (length data)) g = Inr (k, g1)" "0 \<le> k" "k < int (length data)"
    by blast
  from Suc.IH [of g1] ne obtain rest g2 where
    r: "draw_subsample data n g1 = Inr (rest, g2)" "length rest = n" "set rest \<subseteq> set data"
    by blast
  have "data ! nat k \<in> set data" using k by simp
  then show ?case using k r by simp
qed

subsection \<open>Minimum and maximum of a slice\<close>

lemma min_max_step_eq: "min_max_step (a, b) v = (min a v, max b v)"
  by (auto simp: min_max_step_def Let_def min_def max_def)

lemma foldl_min_max_step:
  "foldl min_max_step (a, b) xs = (Min (insert a (set xs)), Max (insert b (set xs)))"
proof (induction xs arbitrary: a b)
  case Nil
  then show ?case by simp
next
  case (Cons x xs)
  have mn: "Min (insert (min a x) (set xs)) = Min (insert a (insert x (set xs)))"
    by (metis List.set_insert Min_insert Min_singleton insert_not_empty
        list.set_finite min.assoc)
  have mx: "Max (insert (max b x) (set xs)) = Max (insert b (insert x (set xs)))"
    by (metis List.set_insert Max_insert Max_singleton disjoint_insert(2)
        inf_idem insertCI list.set_finite max.assoc)
  show ?case
    by (simp add: min_max_step_eq Cons.IH mn mx)
qed

lemma min_max_eq:
  assumes "data \<noteq> []"
  shows "min_max data = (Min (set data), Max (set data))"
proof -
  have "data ! 0 \<in> set data" using assms by simp
  then have "insert (data ! 0) (set data) = set data" by auto
  then show ?thesis by (simp add: min_max_def foldl_min_max_step)
qed

lemma Min_eq_Max_iff_constant:
  assumes "data \<noteq> []"
  shows "Min (set data) = Max (set data) \<longleftrightarrow> (\<forall>v \<in> set data. v = data ! 0)"
proof
  assume eq: "Min (set data) = Max (set data)"
  show "\<forall>v \<in> set data. v = data ! 0"
  proof
    fix v assume v: "v \<in> set data"
    have d0: "data ! 0 \<in> set data" using assms by simp
    have "Min (set data) \<le> v" "v \<le> Max (set data)" using v by simp_all
    moreover have "Min (set data) \<le> data ! 0" "data ! 0 \<le> Max (set data)" using d0 by simp_all
    ultimately have "v \<le> data ! 0" "data ! 0 \<le> v" using eq by simp_all
    then show "v = data ! 0" by (rule order.antisym)
  qed
next
  assume c: "\<forall>v \<in> set data. v = data ! 0"
  have ne: "set data \<noteq> {}" using assms by simp
  have "Min (set data) \<in> set data" "Max (set data) \<in> set data"
    using ne by (simp_all del: set_empty)
  then show "Min (set data) = Max (set data)" using c by metis
qed

subsection \<open>The two branches of fitTree\<close>

lemma fitTree_leaf:
  assumes "maxDepth \<le> depth \<or> length data \<le> 1 \<or> Min (set data) = Max (set data)"
  shows "fitTree data depth maxDepth g = (leaf depth, g)"
proof (cases "maxDepth \<le> depth \<or> length data \<le> 1")
  case True
  then show ?thesis by (subst fitTree.simps) auto
next
  case False
  then have "data \<noteq> []" by auto
  then show ?thesis
    using assms False by (subst fitTree.simps) (simp add: min_max_eq)
qed

lemma fitTree_node:
  assumes "depth < maxDepth" and "1 < length data" and "Min (set data) \<noteq> Max (set data)"
  shows "fitTree data depth maxDepth g =
    (let split = Min (set data) + frac (g 0) * (Max (set data) - Min (set data));
         lt = fitTree (filter (\<lambda>v. v < split) data) (depth + 1) maxDepth (rng_next g);
         rt = fitTree (filter (\<lambda>v. \<not> v < split) data) (depth + 1) maxDepth (snd lt)
     in (MkTree split (fst lt) (fst rt) False depth, snd rt))"
proof -
  have "data \<noteq> []" using assms by auto
  then show ?thesis
    using assms
    by (subst fitTree.simps) (simp add: min_max_eq rand_Float64_def Let_def split: prod.splits)
qed


subsection \<open>Induction along the recursion of fitTree\<close>

lemma fitTree_depth_induct [case_names leaf node]:
  assumes leaf: "\<And>data depth g.
      maxDepth \<le> depth \<or> length data \<le> 1 \<or> Min (set data) = Max (set data) \<Longrightarrow>
      P data depth g (leaf depth, g)"
    and node: "\<And>data depth g split lt rt.
      depth < maxDepth \<Longrightarrow> 1 < length data \<Longrightarrow> Min (set data) < Max (set data) \<Longrightarrow>
      split = Min (set data) + frac (g 0) * (Max (set data) - Min (set data)) \<Longrightarrow>
      lt = fitTree (filter (\<lambda>v. v < split) data) (depth + 1) maxDepth (rng_next g) \<Longrightarrow>
      rt = fitTree (filter (\<lambda>v. \<not> v < split) data) (depth + 1) maxDepth (snd lt) \<Longrightarrow>
      P (filter (\<lambda>v. v < split) data) (depth + 1) (rng_next g) lt \<Longrightarrow>
      P (filter (\<lambda>v. \<not> v < split) data) (depth + 1) (snd lt) rt \<Longrightarrow>
      P data depth g (MkTree split (fst lt) (fst rt) False depth, snd rt)"
  shows "P data depth g (fitTree data depth maxDepth g)"
proof (induction "nat (maxDepth - depth)" arbitrary: data depth g rule: less_induct)
  case less
  show ?case
  proof (cases "maxDepth \<le> depth \<or> length data \<le> 1 \<or> Min (set data) = Max (set data)")
    case True
    then show ?thesis
      using leaf [OF True] by (simp add: fitTree_leaf)
  next
    case False
    then have d: "depth < maxDepth" and l: "1 < length data"
      and ne: "Min (set data) \<noteq> Max (set data)" by auto
    have "data \<noteq> []" using l by auto
    then have "Min (set data) \<le> Max (set data)" by simp
    then have lt: "Min (set data) < Max (set data)" using ne by simp
    have smaller: "nat (maxDepth - (depth + 1)) < nat (maxDepth - depth)"
      using d by simp
    show ?thesis
      unfolding fitTree_node [OF d l ne] Let_def
      by (rule node [OF d l lt refl refl refl less [OF smaller] less [OF smaller]])
  qed
qed

lemma fitTree_well_formed:
  "well_formed (fst (fitTree data depth maxDepth g)) \<and>
   Depth (fst (fitTree data depth maxDepth g)) = depth"
  by (rule fitTree_depth_induct [where maxDepth = maxDepth
        and P = "\<lambda>data depth g res. well_formed (fst res) \<and> Depth (fst res) = depth"])
     (simp_all add: leaf_def)

lemma fitTree_depth_lower:
  "\<forall>n \<in> set (nodes (fst (fitTree data depth maxDepth g))). depth \<le> Depth n"
  by (rule fitTree_depth_induct [where maxDepth = maxDepth
        and P = "\<lambda>data depth g res. \<forall>n \<in> set (nodes (fst res)). depth \<le> Depth n"])
     (auto simp: leaf_def)

lemma fitTree_depth_upper:
  "depth \<le> maxDepth \<longrightarrow>
     (\<forall>n \<in> set (nodes (fst (fitTree data depth maxDepth g))). Depth n \<le> maxDepth)"
  by (rule fitTree_depth_induct [where maxDepth = maxDepth
        and P = "\<lambda>data depth g res. depth \<le> maxDepth \<longrightarrow>
                   (\<forall>n \<in> set (nodes (fst res)). Depth n \<le> maxDepth)"])
     (auto simp: leaf_def)

lemma fitTree_internal_depth:
  "\<forall>n \<in> set (nodes (fst (fitTree data depth maxDepth g))). \<not> Leaf n \<longrightarrow> Depth n < maxDepth"
  by (rule fitTree_depth_induct [where maxDepth = maxDepth
        and P = "\<lambda>data depth g res.
                   \<forall>n \<in> set (nodes (fst res)). \<not> Leaf n \<longrightarrow> Depth n < maxDepth"])
     (auto simp: leaf_def)


lemma fitTree_height:
  "height (fst (fitTree data depth maxDepth g)) \<le> Suc (nat (maxDepth - depth))"
proof (rule fitTree_depth_induct [where maxDepth = maxDepth
        and P = "\<lambda>data depth g res. height (fst res) \<le> Suc (nat (maxDepth - depth))"])
  fix data :: "real list" and depth :: int and g :: rng
  show "height (fst (leaf depth, g)) \<le> Suc (nat (maxDepth - depth))" by (simp add: leaf_def)
next
  fix data :: "real list" and depth :: int and g :: rng and split :: real
    and lt rt :: "Tree \<times> rng"
  assume d: "depth < maxDepth"
    and l: "height (fst lt) \<le> Suc (nat (maxDepth - (depth + 1)))"
    and r: "height (fst rt) \<le> Suc (nat (maxDepth - (depth + 1)))"
  have "Suc (nat (maxDepth - (depth + 1))) = nat (maxDepth - depth)"
    using d by simp
  then show "height (fst (MkTree split (fst lt) (fst rt) False depth, snd rt))
      \<le> Suc (nat (maxDepth - depth))"
    using l r by simp
qed

lemma pathLenTree_well_formed:
  "well_formed t \<Longrightarrow>
     \<exists>n \<in> set (nodes t). Leaf n \<and> pathLenTree t x = Inr (real_of_int (Depth n))"
proof (induction t)
  case NilTree
  then show ?case by simp
next
  case (MkTree split l r lf depth)
  show ?case
  proof (cases lf)
    case True
    then show ?thesis by simp
  next
    case False
    then have wl: "well_formed l" and wr: "well_formed r" using MkTree.prems by simp_all
    then have nn: "l \<noteq> NilTree" "r \<noteq> NilTree" by auto
    show ?thesis
    proof (cases "x < split")
      case True
      with MkTree.IH(1) [OF wl] False nn show ?thesis by auto
    next
      case ge: False
      with MkTree.IH(2) [OF wr] False nn show ?thesis by auto
    qed
  qed
qed

subsection \<open>The forest built by New\<close>

lemma clamp_psi_range: "0 \<le> clamp_psi data psi \<and> clamp_psi data psi \<le> int (length data)"
  by (simp add: clamp_psi_def)

lemma clamp_psi_nonempty: "data \<noteq> [] \<Longrightarrow> 1 \<le> clamp_psi data psi"
  by (cases data) (simp_all add: clamp_psi_def)

lemma build_trees_ok:
  assumes "psi = 0 \<or> data \<noteq> []"
  shows "\<exists>trs g'. build_trees data psi maxDepth n g = Inr (trs, g') \<and> length trs = n \<and>
           (\<forall>tr \<in> set trs. \<exists>sub g1. length sub = psi \<and> set sub \<subseteq> set data \<and>
                tr = fst (fitTree sub 0 maxDepth g1))"
proof (induction n arbitrary: g)
  case 0
  then show ?case by simp
next
  case (Suc n)
  from draw_subsample_ok [OF assms, of g] obtain sub g1 where
    s: "draw_subsample data psi g = Inr (sub, g1)" "length sub = psi" "set sub \<subseteq> set data"
    by blast
  obtain tr g2 where f: "fitTree sub 0 maxDepth g1 = (tr, g2)"
    by (cases "fitTree sub 0 maxDepth g1")
  from Suc.IH [of g2] obtain trs g3 where
    b: "build_trees data psi maxDepth n g2 = Inr (trs, g3)" "length trs = n"
       "\<forall>tr \<in> set trs. \<exists>sub g1. length sub = psi \<and> set sub \<subseteq> set data \<and>
            tr = fst (fitTree sub 0 maxDepth g1)"
    by blast
  have tr: "tr = fst (fitTree sub 0 maxDepth g1)" using f by simp
  have "build_trees data psi maxDepth (Suc n) g = Inr (tr # trs, g3)"
    using s f b by simp
  moreover have "\<forall>t \<in> set (tr # trs). \<exists>sub g1. length sub = psi \<and> set sub \<subseteq> set data \<and>
            t = fst (fitTree sub 0 maxDepth g1)"
    using b(3) tr s(2,3) by auto
  ultimately show ?case using b(2) by auto
qed

lemma New_negative: "t < 0 \<Longrightarrow> New data t psi g = Inl MakeLenOutOfRange"
  by (simp add: New_def Let_def)

lemma New_ok:
  assumes "0 \<le> t"
  shows "\<exists>f g'. New data t psi g = Inr (f, g') \<and> length (Trees f) = nat t \<and>
           C f = averagePathLength (clamp_psi data psi) \<and>
           (\<forall>tr \<in> set (Trees f). \<exists>sub g1. length sub = nat (clamp_psi data psi) \<and>
                set sub \<subseteq> set data \<and>
                tr = fst (fitTree sub 0 (max_depth (clamp_psi data psi)) g1))"
proof -
  have "nat (clamp_psi data psi) = 0 \<or> data \<noteq> []"
    using clamp_psi_range [of data psi] by auto
  from build_trees_ok [OF this, of "max_depth (clamp_psi data psi)" "nat t" g]
  obtain trs g' where
    b: "build_trees data (nat (clamp_psi data psi)) (max_depth (clamp_psi data psi)) (nat t) g
          = Inr (trs, g')" "length trs = nat t"
       "\<forall>tr \<in> set trs. \<exists>sub g1. length sub = nat (clamp_psi data psi) \<and> set sub \<subseteq> set data \<and>
            tr = fst (fitTree sub 0 (max_depth (clamp_psi data psi)) g1)"
    by blast
  show ?thesis
    using assms b by (simp add: New_def Let_def)
qed

lemma averagePathLength_zero_iff: "averagePathLength n = 0 \<longleftrightarrow> n \<le> 1"
proof (cases "n \<le> 1")
  case True
  then show ?thesis by (simp add: averagePathLength_def)
next
  case False
  then have "0 < averagePathLength n" by (simp add: averagePathLength_pos)
  then show ?thesis using False by simp
qed

subsection \<open>Path lengths and scores\<close>

lemma pathLength_no_trees: "Trees f = [] \<Longrightarrow> pathLength f x = Inr NaN"
  by (simp add: pathLength_def f64_quot_def)

section \<open>Termination of fitTree\<close>

lemma fitTree_rel_depth:
  assumes "fitTree_rel (data', depth', maxDepth', g') (data, depth, maxDepth, g)"
  shows "depth' = depth + 1 \<and> maxDepth' = maxDepth \<and> depth < maxDepth"
  using assms by (cases rule: fitTree_rel.cases) auto

lemma fitTree_total: "fitTree_dom (data, depth, maxDepth, g)"
proof (induction "nat (maxDepth - depth)" arbitrary: data depth g rule: less_induct)
  case less
  show ?case
  proof (rule accpI)
    fix y
    assume rel: "fitTree_rel y (data, depth, maxDepth, g)"
    obtain data' depth' maxDepth' g' where y: "y = (data', depth', maxDepth', g')"
      by (cases y)
    from fitTree_rel_depth [OF rel [unfolded y]]
    have d: "depth' = depth + 1" "maxDepth' = maxDepth" "depth < maxDepth" by simp_all
    have "nat (maxDepth - (depth + 1)) < nat (maxDepth - depth)" using d(3) by simp
    from less [OF this] show "fitTree_dom y" unfolding y d(1,2) .
  qed
qed

lemma fitTree_split_at_min:
  assumes "frac (g 0) = 0" and "depth < maxDepth" and "1 < length data"
    and "Min (set data) < Max (set data)"
  shows "fitTree data depth maxDepth g =
     (MkTree (Min (set data)) (leaf (depth + 1))
        (fst (fitTree data (depth + 1) maxDepth (rng_next g))) False depth,
      snd (fitTree data (depth + 1) maxDepth (rng_next g)))"
proof -
  have ne: "Min (set data) \<noteq> Max (set data)" using assms(4) by simp
  have l: "filter (\<lambda>v. v < Min (set data)) data = []"
    by (auto simp: filter_empty_conv not_less)
  have r: "filter (\<lambda>v. \<not> v < Min (set data)) data = data"
    by (auto simp: filter_id_conv not_less)
  show ?thesis
    unfolding fitTree_node [OF assms(2,3) ne] Let_def
    by (simp add: assms(1) l r fitTree_leaf)
qed

lemma fitTree_rel_instance:
  "fitTree_rel ([], 0 + 1, 2, rng_next (\<lambda>i. 0)) ([0, 1 :: real], 0, 2, \<lambda>i. 0)"
  by (rule fitTree_rel.intros(1) [where x = "(0 :: real, 1 :: real)" and xa = "0 :: real"
          and y = "1 :: real" and xb = "(0 :: real, rng_next (\<lambda>i. 0))" and xc = "0 :: real"
          and xd = "0 :: real" and xe = "[]" and xf = "[0, 1 :: real]"])
     (simp_all add: min_max_def min_max_step_def rand_Float64_def)

lemma fitTree_example:
  "fitTree [0, 1] 0 2 (\<lambda>i. 0) =
     (MkTree 0 (leaf 1) (MkTree 0 (leaf 2) (leaf 2) False 1) False 0, \<lambda>i. 0)"
proof -
  have g: "rng_next (\<lambda>i. 0) = (\<lambda>i. 0)" by (simp add: rng_next_def)
  have mm: "Min (set [0, 1 :: real]) < Max (set [0, 1 :: real])" by simp
  have f0: "frac ((\<lambda>i. 0 :: real) 0) = 0" by simp
  have inner: "fitTree [0, 1] 1 2 (\<lambda>i. 0) = (MkTree 0 (leaf 2) (leaf 2) False 1, \<lambda>i. 0)"
    using fitTree_split_at_min [OF f0 _ _ mm, of 1 2] by (simp add: g fitTree_leaf)
  show ?thesis
    using fitTree_split_at_min [OF f0 _ _ mm, of 0 2] by (simp add: g inner)
qed

text \<open>
  Claim C10. \<open>fitTree\<close> terminates on every input: every argument tuple lies in the
  domain of the recursion. Each recursive call is made at \<open>depth + 1\<close> with the same
  \<open>maxDepth\<close>, and only while \<open>depth < maxDepth\<close>; the tree returned has at most
  \<open>maxDepth - depth + 1\<close> levels. This holds although the data need not shrink: when the
  random draw is 0 the threshold is the minimum, the left part is empty and the right
  part is the whole slice, and the call still returns.
\<close>

theorem fitTree_terminates:
  "fitTree_dom (data, depth, maxDepth, g) \<and>
   (fitTree_rel (data', depth', maxDepth', g') (data, depth, maxDepth, g) \<longrightarrow>
      depth' = depth + 1 \<and> maxDepth' = maxDepth \<and> depth < maxDepth) \<and>
   height (fst (fitTree data depth maxDepth g)) \<le> Suc (nat (maxDepth - depth)) \<and>
   (frac (g 0) = 0 \<and> depth < maxDepth \<and> 1 < length data \<and> Min (set data) < Max (set data) \<longrightarrow>
      filter (\<lambda>v. v < Min (set data)) data = [] \<and>
      filter (\<lambda>v. \<not> v < Min (set data)) data = data \<and>
      fitTree data depth maxDepth g =
        (MkTree (Min (set data)) (leaf (depth + 1))
           (fst (fitTree data (depth + 1) maxDepth (rng_next g))) False depth,
         snd (fitTree data (depth + 1) maxDepth (rng_next g))))"
proof -
  have l: "filter (\<lambda>v. v < Min (set data)) data = []"
    by (auto simp: filter_empty_conv not_less)
  have r: "filter (\<lambda>v. \<not> v < Min (set data)) data = data"
    by (auto simp: filter_id_conv not_less)
  show ?thesis
    using fitTree_total fitTree_rel_depth fitTree_height fitTree_split_at_min l r
    by blast
qed

theorem fitTree_terminates_witness:
  "fitTree_dom ([0, 1], 0, 2, \<lambda>i. 0) \<and>
   fitTree_rel ([], 0 + 1, 2, rng_next (\<lambda>i. 0)) ([0, 1], 0, 2, \<lambda>i. 0) \<and>
   frac ((\<lambda>i. 0 :: real) 0) = 0 \<and> (0 :: int) < 2 \<and> 1 < length [0, 1 :: real] \<and>
   Min (set [0, 1 :: real]) < Max (set [0, 1 :: real]) \<and>
   filter (\<lambda>v. v < Min (set [0, 1 :: real])) [0, 1] = [] \<and>
   filter (\<lambda>v. \<not> v < Min (set [0, 1 :: real])) [0, 1] = [0, 1] \<and>
   height (fst (fitTree [0, 1] 0 2 (\<lambda>i. 0))) \<le> Suc (nat (2 - 0)) \<and>
   fitTree [0, 1] 0 2 (\<lambda>i. 0) =
     (MkTree 0 (leaf 1) (MkTree 0 (leaf 2) (leaf 2) False 1) False 0, \<lambda>i. 0)"
proof -
  have dom: "fitTree_dom ([0, 1], 0, 2, \<lambda>i. 0)"
    using fitTree_terminates [of "[0, 1]" 0 2 "\<lambda>i. 0" "[]" "0 + 1" 2 "rng_next (\<lambda>i. 0)"]
    by (rule conjunct1)
  show ?thesis
    using dom fitTree_rel_instance by (simp add: fitTree_example leaf_def)
qed

section \<open>The split threshold\<close>







section \<open>The normalization constant and the depth bound\<close>

text \<open>
  Claim C6. \<open>averagePathLength n\<close> is 0 for every \<open>n \<le> 1\<close>, it is 1 for \<open>n = 2\<close>, and for
  every \<open>n \<ge> 2\<close> it is \<open>2 * H(n - 1) - 2 * (n - 1) / n\<close> with \<open>H(m)\<close> the sum of \<open>1 / i\<close> for
  \<open>i\<close> from 1 to \<open>m\<close>. The constant \<open>C\<close> of the forest that \<open>New\<close> returns is
  \<open>averagePathLength\<close> of the clamped subsample size.
\<close>

theorem averagePathLength_contract:
  "(n \<le> 1 \<longrightarrow> averagePathLength n = 0) \<and>
   averagePathLength 2 = 1 \<and>
   (2 \<le> m \<longrightarrow> averagePathLength m =
      2 * (\<Sum>i = 1..m - 1. 1 / real_of_int i) - 2 * real_of_int (m - 1) / real_of_int m) \<and>
   (0 \<le> t \<longrightarrow> (\<exists>f g'. New data t psi g = Inr (f, g') \<and>
      C f = averagePathLength (clamp_psi data psi)))"
proof -
  have "\<exists>f g'. New data t psi g = Inr (f, g') \<and> C f = averagePathLength (clamp_psi data psi)"
    if "0 \<le> t"
    using New_ok [OF that, of data psi g] by blast
  then show ?thesis
    using averagePathLength_zero_iff averagePathLength_two averagePathLength_formula by blast
qed

theorem averagePathLength_contract_witness:
  "(0 :: int) \<le> 1 \<and> averagePathLength 0 = 0 \<and> averagePathLength 2 = 1 \<and>
   (2 :: int) \<le> 3 \<and> averagePathLength 3 = 5 / 3 \<and>
   (\<exists>f g'. New [0, 1] 1 2 (\<lambda>i. 0) = Inr (f, g') \<and> C f = 1)"
proof -
  note c = averagePathLength_contract [of 0 3 1 "[0, 1]" 2 "\<lambda>i. 0"]
  have s: "{1..(3 :: int) - 1} = {1, 2}" by auto
  have a0: "averagePathLength 0 = 0" using c by simp
  have a2: "averagePathLength 2 = 1" using c by simp
  have "averagePathLength 3 =
      2 * (\<Sum>i = 1..(3 :: int) - 1. 1 / real_of_int i) - 2 * real_of_int (3 - 1) / real_of_int 3"
    using c by simp
  then have a3: "averagePathLength 3 = 5 / 3" unfolding s by simp
  have cl: "clamp_psi [0, 1] 2 = 2" by (simp add: clamp_psi_def)
  have "\<exists>f g'. New [0, 1] 1 2 (\<lambda>i. 0) = Inr (f, g') \<and> C f = averagePathLength (clamp_psi [0, 1] 2)"
    using c by simp
  then have n: "\<exists>f g'. New [0, 1] 1 2 (\<lambda>i. 0) = Inr (f, g') \<and> C f = 1"
    unfolding cl a2 .
  show ?thesis using a0 a2 a3 n by simp
qed

lemma constant_Min_Max:
  assumes "data \<noteq> []" and "\<forall>v \<in> set data. v = c"
  shows "Min (set data) = Max (set data)"
proof -
  have "data ! 0 \<in> set data" using assms(1) by simp
  then have "data ! 0 = c" using assms(2) by blast
  then have "\<forall>v \<in> set data. v = data ! 0" using assms(2) by simp
  then show ?thesis using Min_eq_Max_iff_constant [OF assms(1)] by blast
qed

lemma fitTree_degenerate:
  assumes "length data \<le> 1 \<or> (\<forall>v \<in> set data. v = c)"
  shows "fitTree data depth maxDepth g = (leaf depth, g)"
proof (cases "length data \<le> 1")
  case True
  then show ?thesis by (simp add: fitTree_leaf)
next
  case False
  then have "data \<noteq> []" and "\<forall>v \<in> set data. v = c" using assms by auto
  then have "Min (set data) = Max (set data)" by (rule constant_Min_Max)
  then show ?thesis by (simp add: fitTree_leaf)
qed

lemma New_depths:
  assumes "data \<noteq> []" and "0 \<le> t"
  shows "\<exists>f g'. New data t psi g = Inr (f, g') \<and> length (Trees f) = nat t \<and>
           (\<forall>tr \<in> set (Trees f). well_formed tr \<and>
              (\<forall>n \<in> set (nodes tr). 0 \<le> Depth n \<and> Depth n \<le> max_depth (clamp_psi data psi)))"
proof -
  from New_ok [OF assms(2), of data psi g] obtain f g' where
    n: "New data t psi g = Inr (f, g')" "length (Trees f) = nat t"
       "\<forall>tr \<in> set (Trees f). \<exists>sub g1. length sub = nat (clamp_psi data psi) \<and>
            set sub \<subseteq> set data \<and>
            tr = fst (fitTree sub 0 (max_depth (clamp_psi data psi)) g1)"
    by blast
  have md: "0 \<le> max_depth (clamp_psi data psi)"
    using max_depth_ge1(2) [OF clamp_psi_nonempty [OF assms(1)]] .
  have "well_formed tr \<and>
        (\<forall>n \<in> set (nodes tr). 0 \<le> Depth n \<and> Depth n \<le> max_depth (clamp_psi data psi))"
    if "tr \<in> set (Trees f)" for tr
  proof -
    from n(3) that obtain sub g1 where
      tr: "tr = fst (fitTree sub 0 (max_depth (clamp_psi data psi)) g1)" by blast
    show ?thesis
      unfolding tr
      using fitTree_well_formed [of sub 0 "max_depth (clamp_psi data psi)" g1]
        fitTree_depth_lower [of sub 0 "max_depth (clamp_psi data psi)" g1]
        fitTree_depth_upper [of 0 "max_depth (clamp_psi data psi)" sub g1] md
      by blast
  qed
  then show ?thesis using n(1,2) by blast
qed

text \<open>
  Claim C7. For every non-empty data series and all parameters \<open>t \<ge> 0\<close> and \<open>psi\<close>, \<open>New\<close>
  returns a forest in which the depth of every node of every tree lies between 0 and
  \<open>max_depth\<close>, the ceiling of the binary logarithm of the clamped subsample size (which is
  0 when that size is at most 1). A call of \<open>fitTree\<close> on an empty, singleton or
  constant-valued slice returns a leaf, at any depth and without reading the random
  source.
\<close>

theorem New_depth_bound:
  "(data \<noteq> [] \<and> 0 \<le> t \<longrightarrow>
      (\<exists>f g'. New data t psi g = Inr (f, g') \<and>
         (\<forall>tr \<in> set (Trees f). \<forall>n \<in> set (nodes tr).
            0 \<le> Depth n \<and> Depth n \<le> max_depth (clamp_psi data psi)))) \<and>
   (data \<noteq> [] \<longrightarrow>
      max_depth (clamp_psi data psi) = \<lceil>log 2 (real_of_int (clamp_psi data psi))\<rceil>) \<and>
   (data \<noteq> [] \<and> clamp_psi data psi \<le> 1 \<longrightarrow> max_depth (clamp_psi data psi) = 0) \<and>
   (length sub \<le> 1 \<or> (\<forall>v \<in> set sub. v = c) \<longrightarrow>
      fitTree sub depth maxDepth g0 = (leaf depth, g0) \<and> Leaf (leaf depth))"
proof -
  have a: "\<exists>f g'. New data t psi g = Inr (f, g') \<and>
         (\<forall>tr \<in> set (Trees f). \<forall>n \<in> set (nodes tr).
            0 \<le> Depth n \<and> Depth n \<le> max_depth (clamp_psi data psi))"
    if "data \<noteq> []" "0 \<le> t"
    using New_depths [OF that, of psi g] by blast
  have b: "max_depth (clamp_psi data psi) = \<lceil>log 2 (real_of_int (clamp_psi data psi))\<rceil>"
    if "data \<noteq> []"
    using max_depth_ge1(1) [OF clamp_psi_nonempty [OF that]] .
  have c: "max_depth (clamp_psi data psi) = 0" if "data \<noteq> []" "clamp_psi data psi \<le> 1"
  proof -
    have "clamp_psi data psi = 1" using clamp_psi_nonempty [OF that(1), of psi] that(2) by simp
    then show ?thesis using b [OF that(1)] by simp
  qed
  have d: "fitTree sub depth maxDepth g0 = (leaf depth, g0) \<and> Leaf (leaf depth)"
    if "length sub \<le> 1 \<or> (\<forall>v \<in> set sub. v = c)"
    using fitTree_degenerate [OF that] by (simp add: leaf_def)
  show ?thesis using a b c d by blast
qed

theorem New_depth_bound_witness:
  "[0, 1 :: real] \<noteq> [] \<and> (0 :: int) \<le> 1 \<and>
   (\<exists>f g'. New [0, 1] 1 2 (\<lambda>i. 0) = Inr (f, g') \<and>
      (\<forall>tr \<in> set (Trees f). \<forall>n \<in> set (nodes tr). 0 \<le> Depth n \<and> Depth n \<le> 1)) \<and>
   max_depth (clamp_psi [0, 1] 2) = 1 \<and>
   [7 :: real] \<noteq> [] \<and> clamp_psi [7] 5 \<le> 1 \<and> max_depth (clamp_psi [7] 5) = 0 \<and>
   length [7 :: real] \<le> 1 \<and> fitTree [7] 0 3 (\<lambda>i. 0) = (leaf 0, \<lambda>i. 0) \<and>
   fitTree [4, 4, 4] 2 5 (\<lambda>i. 1 / 2) = (leaf 2, \<lambda>i. 1 / 2)"
proof -
  note c1 = New_depth_bound [of "[0, 1]" 1 2 "\<lambda>i. 0" "[7]" 0 0 3 "\<lambda>i. 0"]
  note c2 = New_depth_bound [of "[7]" 1 5 "\<lambda>i. 0" "[4, 4, 4]" 4 2 5 "\<lambda>i. 1 / 2"]
  have cl: "clamp_psi [0, 1] 2 = 2" by (simp add: clamp_psi_def)
  have cl7: "clamp_psi [7] 5 = 1" by (simp add: clamp_psi_def)
  have md: "max_depth (clamp_psi [0, 1] 2) = 1" using c1 by (simp add: cl)
  have a: "\<exists>f g'. New [0, 1] 1 2 (\<lambda>i. 0) = Inr (f, g') \<and>
      (\<forall>tr \<in> set (Trees f). \<forall>n \<in> set (nodes tr). 0 \<le> Depth n \<and> Depth n \<le> 1)"
    using c1 by (simp add: md [unfolded cl] cl)
  have b: "max_depth (clamp_psi [7] 5) = 0" using c2 by (simp add: cl7)
  have l1: "fitTree [7] 0 3 (\<lambda>i. 0) = (leaf 0, \<lambda>i. 0)" using c1 by simp
  have l2: "fitTree [4, 4, 4] 2 5 (\<lambda>i. 1 / 2) = (leaf 2, \<lambda>i. 1 / 2)" using c2 by simp
  show ?thesis using a md b l1 l2 by (simp add: cl7)
qed

section \<open>Normalizer\<close>

lemma foldl_add_sum_list: "foldl (\<lambda>s v. s + v) a x = a + sum_list (x :: real list)"
  by (induction x arbitrary: a) simp_all

lemma foldl_sq_sum_list:
  "foldl (\<lambda>s v. s + (v - mu) * (v - mu)) a x = a + (\<Sum>v\<leftarrow>x. (v - mu) * (v - mu :: real))"
  by (induction x arbitrary: a) simp_all

lemma meanStd_nonempty:
  assumes "x \<noteq> []"
  shows "meanStd x =
    (sum_list x / real (length x),
     sqrt ((\<Sum>v\<leftarrow>x. (v - sum_list x / real (length x)) * (v - sum_list x / real (length x)))
           / real (length x)))"
  using assms by (simp add: meanStd_def Let_def foldl_add_sum_list foldl_sq_sum_list)

lemma normalize_eq:
  "normalize_series x = map (\<lambda>v. (v - fst (meanStd x)) / (snd (meanStd x) + epsilon)) x"
  by (simp add: normalize_series_def split: prod.splits)

text \<open>
  Claim C2 (as amended). \<open>meanStd\<close> returns the mean and the population standard
  deviation of the series: \<open>(0, 1)\<close> for the empty series (so the deviation is 1 there,
  not 0), deviation 0 for every series of length 1, and for every non-empty series the
  square root of the mean squared deviation from the mean. The normalized series has the
  length of the input and its \<open>i\<close>-th element is \<open>(v\<^sub>i - mean) / (deviation + 1e-9)\<close>.
\<close>

theorem normalizer_contract:
  "meanStd [] = (0, 1) \<and>
   (length x = 1 \<longrightarrow> snd (meanStd x) = 0) \<and>
   (x \<noteq> [] \<longrightarrow>
      fst (meanStd x) = sum_list x / real (length x) \<and>
      snd (meanStd x) =
        sqrt ((\<Sum>v\<leftarrow>x. (v - fst (meanStd x)) * (v - fst (meanStd x))) / real (length x))) \<and>
   epsilon = 1 / 10 ^ 9 \<and>
   length (normalize_series x) = length x \<and>
   (i < length x \<longrightarrow>
      normalize_series x ! i = (x ! i - fst (meanStd x)) / (snd (meanStd x) + epsilon))"
proof -
  have one: "snd (meanStd x) = 0" if "length x = 1"
  proof -
    from that obtain v where "x = [v]" by (cases x) auto
    then show ?thesis by (simp add: meanStd_def Let_def)
  qed
  show ?thesis
    using one by (auto simp: meanStd_nonempty normalize_eq epsilon_def) (simp add: meanStd_def)
qed

theorem normalizer_contract_witness:
  "length [5 :: real] = 1 \<and> snd (meanStd [5]) = 0 \<and>
   [1, 3 :: real] \<noteq> [] \<and> fst (meanStd [1, 3]) = 2 \<and> snd (meanStd [1, 3]) = 1 \<and>
   (0 :: nat) < length [1, 3 :: real] \<and>
   normalize_series [1, 3] ! 0 = (1 - 2) / (1 + 1 / 10 ^ 9)"
proof -
  note a = normalizer_contract [of "[5]" 0]
  note b = normalizer_contract [of "[1, 3]" 0]
  have s5: "snd (meanStd [5]) = 0" using a by simp
  have m: "fst (meanStd [1, 3]) = 2" using b by simp
  have "snd (meanStd [1, 3]) =
      sqrt ((\<Sum>v\<leftarrow>[1, 3 :: real]. (v - fst (meanStd [1, 3])) * (v - fst (meanStd [1, 3])))
            / real (length [1, 3 :: real]))"
    using b by simp
  then have s: "snd (meanStd [1, 3]) = 1" unfolding m by simp
  have "normalize_series [1, 3] ! 0 = ([1, 3] ! 0 - fst (meanStd [1, 3])) / (snd (meanStd [1, 3]) + epsilon)"
    using b by simp
  then have n: "normalize_series [1, 3] ! 0 = (1 - 2) / (1 + 1 / 10 ^ 9)"
    unfolding m s by (simp add: epsilon_def)
  show ?thesis using s5 m s n by simp
qed

text \<open>The claim as written gives the empty series the deviation 0; \<open>meanStd\<close> returns 1.\<close>

theorem meanStd_empty_counterexample:
  "length ([] :: real list) \<le> 1 \<and> snd (meanStd []) = 1 \<and> snd (meanStd []) \<noteq> 0"
  by (simp add: meanStd_def)

section \<open>Range of the score\<close>

lemma New_wf_trees:
  assumes "0 \<le> t"
  shows "\<exists>f g'. New data t psi g = Inr (f, g') \<and> length (Trees f) = nat t \<and>
           C f = averagePathLength (clamp_psi data psi) \<and>
           (\<forall>tr \<in> set (Trees f). well_formed tr \<and> (\<forall>n \<in> set (nodes tr). 0 \<le> Depth n))"
proof -
  from New_ok [OF assms, of data psi g] obtain f g' where
    n: "New data t psi g = Inr (f, g')" "length (Trees f) = nat t"
       "C f = averagePathLength (clamp_psi data psi)"
       "\<forall>tr \<in> set (Trees f). \<exists>sub g1. length sub = nat (clamp_psi data psi) \<and>
            set sub \<subseteq> set data \<and>
            tr = fst (fitTree sub 0 (max_depth (clamp_psi data psi)) g1)"
    by blast
  have "well_formed tr \<and> (\<forall>n \<in> set (nodes tr). 0 \<le> Depth n)" if "tr \<in> set (Trees f)" for tr
  proof -
    from n(4) that obtain sub g1 where
      tr: "tr = fst (fitTree sub 0 (max_depth (clamp_psi data psi)) g1)" by blast
    show ?thesis
      unfolding tr
      using fitTree_well_formed [of sub 0 "max_depth (clamp_psi data psi)" g1]
        fitTree_depth_lower [of sub 0 "max_depth (clamp_psi data psi)" g1]
      by blast
  qed
  then show ?thesis using n(1,2,3) by blast
qed

lemma pathLength_loop_lower:
  assumes "\<forall>t \<in> set ts. well_formed t \<and> (\<forall>n \<in> set (nodes t). 0 \<le> Depth n)"
  shows "\<exists>pl'. pathLength_loop ts x pl = Inr pl' \<and> pl \<le> pl'"
  using assms
proof (induction ts arbitrary: pl)
  case Nil
  then show ?case by simp
next
  case (Cons t ts)
  then have wf: "well_formed t" and dn: "\<forall>n \<in> set (nodes t). 0 \<le> Depth n"
    by simp_all
  from pathLenTree_well_formed [OF wf, of x] obtain n where
    n: "n \<in> set (nodes t)" "pathLenTree t x = Inr (real_of_int (Depth n))"
    by blast
  have d: "0 \<le> real_of_int (Depth n)" using dn n(1) by simp
  from Cons.IH [of "pl + real_of_int (Depth n)"] Cons.prems obtain pl' where
    p: "pathLength_loop ts x (pl + real_of_int (Depth n)) = Inr pl'"
       "pl + real_of_int (Depth n) \<le> pl'"
    by auto
  have "pathLength_loop (t # ts) x pl = Inr pl'" using n(2) p(1) by simp
  moreover have "pl \<le> pl'" using p(2) d by simp
  ultimately show ?case by blast
qed

lemma pathLength_lower:
  assumes "\<forall>t \<in> set (Trees f). well_formed t \<and> (\<forall>n \<in> set (nodes t). 0 \<le> Depth n)"
    and "Trees f \<noteq> []"
  shows "\<exists>e. pathLength f x = Inr (Finite e) \<and> 0 \<le> e"
proof -
  from pathLength_loop_lower [OF assms(1), of x 0] obtain pl where
    p: "pathLength_loop (Trees f) x 0 = Inr pl" "0 \<le> pl"
    by blast
  have n: "0 < real (length (Trees f))" using assms(2) by simp
  have "pathLength f x = Inr (Finite (pl / real (length (Trees f))))"
    using p(1) n by (simp add: pathLength_def f64_quot_def)
  moreover have "0 \<le> pl / real (length (Trees f))" using p(2) by simp
  ultimately show ?thesis by blast
qed

lemma averagePathLength_nonneg: "0 \<le> averagePathLength n"
  using averagePathLength_zero_iff [of n] averagePathLength_pos [of n]
  by (cases "n \<le> 1") auto

lemma Score_of_pathLength:
  assumes "pathLength f x = Inr (Finite e)" and "0 \<le> e" and "0 \<le> C f"
  shows "\<exists>s. Score f x = Inr (Finite s) \<and> 0 \<le> s \<and> s \<le> 1 \<and> (s = 0 \<longleftrightarrow> C f = 0) \<and>
           (C f \<noteq> 0 \<longrightarrow> s = 2 powr (- e / C f) \<and> 0 < s)"
proof (cases "C f = 0")
  case True
  then show ?thesis by (simp add: Score_def)
next
  case False
  then have c: "0 < C f" using assms(3) by simp
  have s: "Score f x = Inr (Finite (2 powr (- e / C f)))"
    using False assms(1) by (simp add: Score_def)
  have pos: "0 < (2 :: real) powr (- e / C f)" by simp
  have "- e / C f \<le> 0" using assms(2) c by (simp add: divide_nonpos_pos)
  then have "(2 :: real) powr (- e / C f) \<le> 2 powr 0" by (intro powr_mono) simp_all
  then have le: "(2 :: real) powr (- e / C f) \<le> 1" by simp
  show ?thesis using s pos le False by auto
qed

text \<open>
  With at least one tree the score is a number in \<open>[0,1]\<close>: it is 0 exactly when \<open>C = 0\<close>,
  that is when the clamped subsample size is at most 1, and otherwise it is
  \<open>2^(-E/C)\<close> for the path length \<open>E \<ge> 0\<close>, which is positive.
\<close>

lemma Score_range:
  assumes "0 < t"
  shows "\<exists>f g' s. New data t psi g = Inr (f, g') \<and> Score f x = Inr (Finite s) \<and>
           0 \<le> s \<and> s \<le> 1 \<and> (s = 0 \<longleftrightarrow> C f = 0) \<and> (C f = 0 \<longleftrightarrow> clamp_psi data psi \<le> 1) \<and>
           (C f \<noteq> 0 \<longrightarrow>
              (\<exists>e. pathLength f x = Inr (Finite e) \<and> 0 \<le> e \<and> s = 2 powr (- e / C f) \<and> 0 < s))"
proof -
  have t0: "0 \<le> t" using assms by simp
  from New_wf_trees [OF t0, of data psi g] obtain f g' where
    n: "New data t psi g = Inr (f, g')" "length (Trees f) = nat t"
       "C f = averagePathLength (clamp_psi data psi)"
       "\<forall>tr \<in> set (Trees f). well_formed tr \<and> (\<forall>n \<in> set (nodes tr). 0 \<le> Depth n)"
    by blast
  have ne: "Trees f \<noteq> []" using n(2) assms by auto
  from pathLength_lower [OF n(4) ne, of x] obtain e where
    e: "pathLength f x = Inr (Finite e)" "0 \<le> e" by blast
  have c0: "0 \<le> C f" unfolding n(3) by (rule averagePathLength_nonneg)
  from Score_of_pathLength [OF e c0] obtain s where
    s: "Score f x = Inr (Finite s)" "0 \<le> s" "s \<le> 1" "s = 0 \<longleftrightarrow> C f = 0"
       "C f \<noteq> 0 \<longrightarrow> s = 2 powr (- e / C f) \<and> 0 < s"
    by blast
  have cz: "C f = 0 \<longleftrightarrow> clamp_psi data psi \<le> 1"
    unfolding n(3) by (rule averagePathLength_zero_iff)
  show ?thesis using n(1) s e cz by blast
qed

lemma New_no_trees:
  "New [0, 1] 0 2 g = Inr (\<lparr>Trees = [], C = 1\<rparr>, g)"
  by (simp add: New_def clamp_psi_def averagePathLength_two)

text \<open>
  Claim C5. The doc comment of \<open>Score\<close> promises a value in \<open>[0,1]\<close>, and so does the claim,
  for every forest built by \<open>New\<close>. \<open>New\<close> accepts \<open>t = 0\<close> and returns a forest with no
  tree; \<open>pathLength\<close> then divides 0 by 0, and for a subsample size of 2 or more \<open>Score\<close>
  returns NaN, which is neither at least 0 nor at most 1.
\<close>

theorem Score_no_trees_NaN:
  "New [0, 1] 0 2 g = Inr (\<lparr>Trees = [], C = 1\<rparr>, g) \<and>
   pathLength \<lparr>Trees = [], C = 1\<rparr> x = Inr NaN \<and>
   Score \<lparr>Trees = [], C = 1\<rparr> x = Inr NaN \<and>
   \<not> f64_ge NaN (Finite 0) \<and> \<not> f64_ge (Finite 1) NaN"
  by (simp add: New_no_trees pathLength_no_trees Score_def)

section \<open>Constant series\<close>







lemma length_normalize: "length (normalize_series vals) = length vals"
  by (simp add: normalize_eq)





section \<open>Selector\<close>

lemma set_insert_less: "set (insert_less lt x ys) = insert x (set ys)"
  by (induction ys) auto

lemma length_insert_less: "length (insert_less lt x ys) = Suc (length ys)"
  by (induction ys) auto

lemma distinct_insert_less:
  "x \<notin> set ys \<Longrightarrow> distinct ys \<Longrightarrow> distinct (insert_less lt x ys)"
  by (induction ys) (auto simp: set_insert_less)

lemma sorted_insert_less:
  fixes key :: "'a \<Rightarrow> real"
  assumes "\<forall>a \<in> insert x (set ys). \<forall>b \<in> insert x (set ys). lt a b \<longleftrightarrow> key b < key a"
    and "sorted_wrt (\<lambda>a b. key b \<le> key a) ys"
  shows "sorted_wrt (\<lambda>a b. key b \<le> key a) (insert_less lt x ys)"
  using assms
proof (induction ys)
  case Nil
  then show ?case by simp
next
  case (Cons y ys)
  show ?case
  proof (cases "lt x y")
    case True
    then have xy: "key y < key x" using Cons.prems(1) by simp
    have "\<forall>z \<in> set ys. key z \<le> key y" using Cons.prems(2) by simp
    then have "\<forall>z \<in> set ys. key z \<le> key x" using xy by fastforce
    then show ?thesis using True xy Cons.prems(2) by simp
  next
    case False
    then have xy: "key x \<le> key y" using Cons.prems(1) by (simp add: not_less)
    have ih: "sorted_wrt (\<lambda>a b. key b \<le> key a) (insert_less lt x ys)"
      using Cons.IH Cons.prems by simp
    show ?thesis using False xy ih Cons.prems(2) by (auto simp: set_insert_less)
  qed
qed

lemma foldl_insert_less:
  fixes key :: "'a \<Rightarrow> real"
  assumes "\<forall>a \<in> set acc \<union> set xs. \<forall>b \<in> set acc \<union> set xs. lt a b \<longleftrightarrow> key b < key a"
    and "sorted_wrt (\<lambda>a b. key b \<le> key a) acc"
    and "distinct (acc @ xs)"
  shows "sorted_wrt (\<lambda>a b. key b \<le> key a) (foldl (\<lambda>acc x. insert_less lt x acc) acc xs) \<and>
         distinct (foldl (\<lambda>acc x. insert_less lt x acc) acc xs) \<and>
         set (foldl (\<lambda>acc x. insert_less lt x acc) acc xs) = set acc \<union> set xs \<and>
         length (foldl (\<lambda>acc x. insert_less lt x acc) acc xs) = length acc + length xs"
  using assms
proof (induction xs arbitrary: acc)
  case Nil
  then show ?case by simp
next
  case (Cons x xs)
  have s: "sorted_wrt (\<lambda>a b. key b \<le> key a) (insert_less lt x acc)"
    using Cons.prems(1,2) by (intro sorted_insert_less) auto
  have d: "distinct (insert_less lt x acc @ xs)"
    using Cons.prems(3) by (auto simp: distinct_insert_less set_insert_less)
  have c: "\<forall>a \<in> set (insert_less lt x acc) \<union> set xs.
           \<forall>b \<in> set (insert_less lt x acc) \<union> set xs. lt a b \<longleftrightarrow> key b < key a"
    using Cons.prems(1) by (simp add: set_insert_less)
  from Cons.IH [OF c s d] show ?case
    by (auto simp: set_insert_less length_insert_less)
qed

lemma sort_Slice_sorted:
  fixes key :: "'a \<Rightarrow> real"
  assumes "\<forall>a \<in> set xs. \<forall>b \<in> set xs. lt a b \<longleftrightarrow> key b < key a" and "distinct xs"
  shows "sorted_wrt (\<lambda>a b. key b \<le> key a) (sort_Slice lt xs)"
    and "distinct (sort_Slice lt xs)"
    and "set (sort_Slice lt xs) = set xs"
    and "length (sort_Slice lt xs) = length xs"
  using foldl_insert_less [of "[]" xs lt key] assms by (simp_all add: sort_Slice_def)

lemma score_all_finite:
  assumes "\<And>v. \<exists>s. Score f v = Inr (Finite s) \<and> 0 \<le> s \<and> s \<le> 1"
  shows "\<exists>scores. score_all f vs = Inr scores \<and> length scores = length vs \<and>
           (\<forall>sc \<in> set scores. \<exists>s. sc = Finite s \<and> 0 \<le> s \<and> s \<le> 1)"
proof (induction vs)
  case Nil
  then show ?case by simp
next
  case (Cons v vs)
  from assms [of v] obtain s where s: "Score f v = Inr (Finite s)" "0 \<le> s" "s \<le> 1" by blast
  from Cons.IH obtain scores where
    sc: "score_all f vs = Inr scores" "length scores = length vs"
        "\<forall>sc \<in> set scores. \<exists>s. sc = Finite s \<and> 0 \<le> s \<and> s \<le> 1"
    by blast
  have "score_all f (v # vs) = Inr (Finite s # scores)" using s(1) sc(1) by simp
  moreover have "\<forall>sc \<in> set (Finite s # scores). \<exists>s. sc = Finite s \<and> 0 \<le> s \<and> s \<le> 1"
    using s(2,3) sc(3) by simp
  ultimately show ?case using sc(2) by auto
qed

lemma build_trees_empty:
  "build_trees [] 0 maxDepth n g = Inr (replicate n (leaf 0), g)"
  by (induction n) (simp_all add: fitTree_leaf)

lemma New_empty:
  assumes "0 \<le> t"
  shows "New [] t psi g = Inr (\<lparr>Trees = replicate (nat t) (leaf 0), C = 0\<rparr>, g)"
  using assms by (simp add: New_def clamp_psi_def build_trees_empty averagePathLength_def)

lemma detectAnomalies_empty:
  assumes "0 \<le> k"
  shows "detectAnomalies [] k g = Inr (([], []), g)"
  using assms
  by (simp add: detectAnomalies_def normalize_series_def meanStd_def New_empty sort_Slice_def)

lemma detectAnomalies_unfold:
  assumes "0 \<le> k"
  shows "\<exists>scores g'. length scores = length vals \<and>
           (\<forall>sc \<in> set scores. \<exists>s. sc = Finite s \<and> 0 \<le> s \<and> s \<le> 1) \<and>
           detectAnomalies vals k g =
             Inr ((take (nat k) (sort_Slice (score_gt scores) (map int [0 ..< length vals])),
                   scores), g')"
proof -
  let ?norm = "normalize_series vals"
  let ?psi = "min 64 (int (length ?norm))"
  from New_wf_trees [of 100 ?norm ?psi g] obtain f g' where
    n: "New ?norm 100 ?psi g = Inr (f, g')" "length (Trees f) = nat 100"
       "C f = averagePathLength (clamp_psi ?norm ?psi)"
       "\<forall>tr \<in> set (Trees f). well_formed tr \<and> (\<forall>n \<in> set (nodes tr). 0 \<le> Depth n)"
    by auto
  have ne: "Trees f \<noteq> []" using n(2) by auto
  have c0: "0 \<le> C f" unfolding n(3) by (rule averagePathLength_nonneg)
  have sc1: "\<exists>s. Score f v = Inr (Finite s) \<and> 0 \<le> s \<and> s \<le> 1" for v
  proof -
    from pathLength_lower [OF n(4) ne, of v] obtain e where
      e: "pathLength f v = Inr (Finite e)" "0 \<le> e" by blast
    from Score_of_pathLength [OF e c0] show ?thesis by blast
  qed
  from score_all_finite [of f ?norm, OF sc1] obtain scores where
    sc: "score_all f ?norm = Inr scores" "length scores = length ?norm"
        "\<forall>sc \<in> set scores. \<exists>s. sc = Finite s \<and> 0 \<le> s \<and> s \<le> 1"
    by blast
  let ?sorted = "sort_Slice (score_gt scores) (map int [0 ..< length ?norm])"
  have tk: "take (nat (if int (length ?sorted) < k then int (length ?sorted) else k)) ?sorted
      = take (nat k) ?sorted"
    by simp
  have "detectAnomalies vals k g = Inr ((take (nat k) ?sorted, scores), g')"
    using assms n(1) sc(1) tk by (simp add: detectAnomalies_def Let_def)
  then show ?thesis using sc(2,3) by (auto simp: length_normalize)
qed

lemma selector_order:
  assumes fin: "\<forall>sc \<in> set scores. \<exists>s. sc = Finite s \<and> 0 \<le> s \<and> s \<le> 1"
  defines "perm \<equiv> sort_Slice (score_gt scores) (map int [0 ..< length scores])"
  shows "length (take m perm) = min m (length scores)"
    and "\<forall>i \<in> set (take m perm). 0 \<le> i \<and> i < int (length scores)"
    and "distinct (take m perm)"
    and "sorted_wrt (\<lambda>a b. f64_ge (scores ! nat a) (scores ! nat b)) (take m perm)"
    and "\<forall>j. 0 \<le> j \<and> j < int (length scores) \<and> j \<notin> set (take m perm) \<longrightarrow>
           (\<forall>i \<in> set (take m perm). f64_ge (scores ! nat i) (scores ! nat j))"
proof -
  define key where "key = (\<lambda>a. case scores ! nat a of Finite s \<Rightarrow> s | _ \<Rightarrow> 0)"
  let ?idx = "map int [0 ..< length scores]"
  have inrange: "0 \<le> a \<and> a < int (length scores)" if "a \<in> set ?idx" for a
    using that by auto
  have member: "a \<in> set ?idx" if "0 \<le> a" "a < int (length scores)" for a
  proof -
    have "nat a \<in> set [0 ..< length scores]" using that by simp
    then have "int (nat a) \<in> set ?idx" by (simp only: set_map) (rule imageI)
    then show ?thesis using that(1) by simp
  qed
  have fin_at: "scores ! nat a = Finite (key a)" if "a \<in> set ?idx" for a
  proof -
    have "nat a < length scores" using inrange [OF that] by linarith
    then have "scores ! nat a \<in> set scores" by (rule nth_mem)
    with fin obtain s where "scores ! nat a = Finite s" by blast
    then show ?thesis by (simp add: key_def)
  qed
  have gt: "score_gt scores a b \<longleftrightarrow> key b < key a" if "a \<in> set ?idx" "b \<in> set ?idx" for a b
    using fin_at [OF that(1)] fin_at [OF that(2)] by (simp add: score_gt_def)
  have ge: "f64_ge (scores ! nat a) (scores ! nat b) \<longleftrightarrow> key b \<le> key a"
    if "a \<in> set ?idx" "b \<in> set ?idx" for a b
    using fin_at [OF that(1)] fin_at [OF that(2)] by simp
  have dist: "distinct ?idx" by (simp add: distinct_map inj_on_def)
  have c: "\<forall>a \<in> set ?idx. \<forall>b \<in> set ?idx. score_gt scores a b \<longleftrightarrow> key b < key a"
    using gt by blast
  note srt = sort_Slice_sorted [OF c dist, folded perm_def]
  have sub: "set (take m perm) \<subseteq> set ?idx" using set_take_subset [of m perm] srt(3) by simp
  show "length (take m perm) = min m (length scores)" using srt(4) by simp
  show "\<forall>i \<in> set (take m perm). 0 \<le> i \<and> i < int (length scores)"
    using sub inrange by blast
  show "distinct (take m perm)" using srt(2) by simp
  have skey: "sorted_wrt (\<lambda>a b. key b \<le> key a) (take m perm)"
    using srt(1) by (rule sorted_wrt_take)
  show "sorted_wrt (\<lambda>a b. f64_ge (scores ! nat a) (scores ! nat b)) (take m perm)"
    using skey
  proof (rule sorted_wrt_mono_rel [rotated])
    fix a b assume "a \<in> set (take m perm)" "b \<in> set (take m perm)" "key b \<le> key a"
    then show "f64_ge (scores ! nat a) (scores ! nat b)" using ge sub by blast
  qed
  show "\<forall>j. 0 \<le> j \<and> j < int (length scores) \<and> j \<notin> set (take m perm) \<longrightarrow>
           (\<forall>i \<in> set (take m perm). f64_ge (scores ! nat i) (scores ! nat j))"
  proof (intro allI impI ballI)
    fix j i
    assume j: "0 \<le> j \<and> j < int (length scores) \<and> j \<notin> set (take m perm)"
      and i: "i \<in> set (take m perm)"
    have jm: "j \<in> set ?idx" using member j by blast
    then have "j \<in> set perm" using srt(3) by simp
    then have "j \<in> set (take m perm) \<union> set (drop m perm)"
      using set_append [of "take m perm" "drop m perm"] by simp
    then have jd: "j \<in> set (drop m perm)" using j by blast
    have "sorted_wrt (\<lambda>a b. key b \<le> key a) (take m perm @ drop m perm)"
      using srt(1) by simp
    then have "key j \<le> key i" using i jd unfolding sorted_wrt_append by blast
    then show "f64_ge (scores ! nat i) (scores ! nat j)" using ge i sub jm by blast
  qed
qed

text \<open>
  Claim C4. For every series and every \<open>k \<ge> 0\<close> the selector returns, without panic,
  exactly \<open>min(k, |S|)\<close> indices together with the score vector of length \<open>|S|\<close>. The
  indices are valid and pairwise distinct, they are in descending order of score (an
  index never precedes one of greater score; the order among equal scores is the one
  \<open>sort.Slice\<close> leaves), and no index left out has a greater score than a selected one.
  Every score is a number in \<open>[0,1]\<close>. This covers \<open>k = 0\<close> and \<open>k > |S|\<close>. On the empty
  series the result is empty, and the forest is built on the empty data without a draw
  from the random source (its state is returned unchanged) and without panic.
\<close>

theorem selector_contract:
  "(0 \<le> k \<longrightarrow>
      (\<exists>idx scores g'. detectAnomalies vals k g = Inr ((idx, scores), g') \<and>
         length idx = min (nat k) (length vals) \<and>
         (\<forall>i \<in> set idx. 0 \<le> i \<and> i < int (length vals)) \<and>
         distinct idx \<and>
         sorted_wrt (\<lambda>a b. f64_ge (scores ! nat a) (scores ! nat b)) idx \<and>
         (\<forall>j. 0 \<le> j \<and> j < int (length vals) \<and> j \<notin> set idx \<longrightarrow>
            (\<forall>i \<in> set idx. f64_ge (scores ! nat i) (scores ! nat j))) \<and>
         length scores = length vals \<and>
         (\<forall>sc \<in> set scores. f64_ge sc (Finite 0) \<and> f64_ge (Finite 1) sc))) \<and>
   (0 \<le> k \<longrightarrow> detectAnomalies [] k g = Inr (([], []), g)) \<and>
   (0 \<le> t \<longrightarrow> New [] t psi g = Inr (\<lparr>Trees = replicate (nat t) (leaf 0), C = 0\<rparr>, g))"
proof -
  have a: "\<exists>idx scores g'. detectAnomalies vals k g = Inr ((idx, scores), g') \<and>
         length idx = min (nat k) (length vals) \<and>
         (\<forall>i \<in> set idx. 0 \<le> i \<and> i < int (length vals)) \<and>
         distinct idx \<and>
         sorted_wrt (\<lambda>a b. f64_ge (scores ! nat a) (scores ! nat b)) idx \<and>
         (\<forall>j. 0 \<le> j \<and> j < int (length vals) \<and> j \<notin> set idx \<longrightarrow>
            (\<forall>i \<in> set idx. f64_ge (scores ! nat i) (scores ! nat j))) \<and>
         length scores = length vals \<and>
         (\<forall>sc \<in> set scores. f64_ge sc (Finite 0) \<and> f64_ge (Finite 1) sc)"
    if k: "0 \<le> k"
  proof -
    from detectAnomalies_unfold [OF k, of vals g] obtain scores g' where
      len: "length scores = length vals"
      and fin: "\<forall>sc \<in> set scores. \<exists>s. sc = Finite s \<and> 0 \<le> s \<and> s \<le> 1"
      and d: "detectAnomalies vals k g =
             Inr ((take (nat k) (sort_Slice (score_gt scores) (map int [0 ..< length vals])),
                   scores), g')"
      by blast
    let ?idx = "take (nat k) (sort_Slice (score_gt scores) (map int [0 ..< length scores]))"
    note o = selector_order [OF fin, of "nat k"]
    have rg: "\<forall>sc \<in> set scores. f64_ge sc (Finite 0) \<and> f64_ge (Finite 1) sc"
      using fin by fastforce
    have "detectAnomalies vals k g = Inr ((?idx, scores), g')" using d len by simp
    moreover have "length ?idx = min (nat k) (length vals)" using o(1) len by simp
    moreover have "\<forall>i \<in> set ?idx. 0 \<le> i \<and> i < int (length vals)" using o(2) len by simp
    moreover have "\<forall>j. 0 \<le> j \<and> j < int (length vals) \<and> j \<notin> set ?idx \<longrightarrow>
            (\<forall>i \<in> set ?idx. f64_ge (scores ! nat i) (scores ! nat j))"
      using o(5) len by simp
    ultimately show ?thesis using o(3,4) len rg by blast
  qed
  show ?thesis using a detectAnomalies_empty New_empty by blast
qed

theorem selector_contract_witness:
  "(0 :: int) \<le> 1 \<and>
   (\<exists>idx scores g'. detectAnomalies [1, 3, 2] 1 (\<lambda>i. 1 / 2) = Inr ((idx, scores), g') \<and>
      length idx = 1 \<and> length scores = 3 \<and> distinct idx \<and>
      sorted_wrt (\<lambda>a b. f64_ge (scores ! nat a) (scores ! nat b)) idx) \<and>
   (0 :: int) \<le> 0 \<and>
   (\<exists>idx scores g'. detectAnomalies [1, 3, 2] 0 (\<lambda>i. 1 / 2) = Inr ((idx, scores), g') \<and>
      length idx = 0 \<and> length scores = 3) \<and>
   (0 :: int) \<le> 7 \<and>
   (\<exists>idx scores g'. detectAnomalies [1, 3, 2] 7 (\<lambda>i. 1 / 2) = Inr ((idx, scores), g') \<and>
      length idx = 3 \<and> length scores = 3) \<and>
   detectAnomalies [] 7 (\<lambda>i. 1 / 2) = Inr (([], []), \<lambda>i. 1 / 2) \<and>
   (0 :: int) \<le> 2 \<and>
   New [] 2 64 (\<lambda>i. 1 / 2) = Inr (\<lparr>Trees = [leaf 0, leaf 0], C = 0\<rparr>, \<lambda>i. 1 / 2)"
proof -
  note k1 = selector_contract [where k = 1 and vals = "[1, 3, 2]" and g = "\<lambda>i. 1 / 2"
      and t = 2 and psi = 64]
  note k0 = selector_contract [where k = 0 and vals = "[1, 3, 2]" and g = "\<lambda>i. 1 / 2"
      and t = 2 and psi = 64]
  note k7 = selector_contract [where k = 7 and vals = "[1, 3, 2]" and g = "\<lambda>i. 1 / 2"
      and t = 2 and psi = 64]
  have a: "\<exists>idx scores g'. detectAnomalies [1, 3, 2] 1 (\<lambda>i. 1 / 2) = Inr ((idx, scores), g') \<and>
      length idx = 1 \<and> length scores = 3 \<and> distinct idx \<and>
      sorted_wrt (\<lambda>a b. f64_ge (scores ! nat a) (scores ! nat b)) idx"
    using k1 by fastforce
  have b: "\<exists>idx scores g'. detectAnomalies [1, 3, 2] 0 (\<lambda>i. 1 / 2) = Inr ((idx, scores), g') \<and>
      length idx = 0 \<and> length scores = 3"
    using k0 by fastforce
  have c: "\<exists>idx scores g'. detectAnomalies [1, 3, 2] 7 (\<lambda>i. 1 / 2) = Inr ((idx, scores), g') \<and>
      length idx = 3 \<and> length scores = 3"
    using k7 by fastforce
  have d: "detectAnomalies [] 7 (\<lambda>i. 1 / 2) = Inr (([], []), \<lambda>i. 1 / 2)"
    using k7 by simp
  have e: "New [] 2 64 (\<lambda>i. 1 / 2) = Inr (\<lparr>Trees = [leaf 0, leaf 0], C = 0\<rparr>, \<lambda>i. 1 / 2)"
    using k7 by (simp add: numeral_2_eq_2)
  show ?thesis using a b c d e by simp
qed

end
